theory Spec2Isabelle
  imports Main "HOL-Library.AList"
begin

section \<open>Python run-time errors\<close>

text \<open>
  The source never raises on purpose; the only failures it can have are the ones the
  interpreter raises: an attribute access on \<open>None\<close>, a missing dictionary key, a
  subscript on \<open>None\<close>. Every operation returns \<open>pyerr + result\<close>.
\<close>

datatype pyerr = AttributeError | KeyError | TypeError

section \<open>class Node, class LRUCache\<close>

text \<open>
  Node objects live in a heap, a function from object identities (naturals) to the
  fields of the object. \<open>prev\<close> and \<open>next\<close> are references or \<open>None\<close>.
\<close>

record ('k, 'v) node =
  nkey :: "'k option"
  nvalue :: "'v option"
  nprev :: "nat option"
  nnext :: "nat option"

text \<open>
  \<open>cache_dict\<close> is the dictionary \<open>self.cache\<close> (key to node reference), kept as an
  association list in insertion order; \<open>fresh\<close> is the identity the next \<open>Node(...)\<close>
  gets.
\<close>

record ('k, 'v) LRUCache =
  capacity :: int
  cache_dict :: "('k \<times> nat) list"
  head :: nat
  tail :: nat
  heap :: "nat \<Rightarrow> ('k, 'v) node"
  fresh :: nat

definition Node_init :: "'k option \<Rightarrow> 'v option \<Rightarrow> ('k, 'v) node" where
  "Node_init k v = \<lparr>nkey = k, nvalue = v, nprev = None, nnext = None\<rparr>"

definition LRUCache_init :: "int \<Rightarrow> ('k, 'v) LRUCache" where
  "LRUCache_init cap =
     (let h0 = (\<lambda>_. Node_init None None);
          h1 = h0(0 := (h0 0)\<lparr>nnext := Some 1\<rparr>);
          h2 = h1(1 := (h1 1)\<lparr>nprev := Some 0\<rparr>)
      in \<lparr>capacity = cap, cache_dict = [], head = 0, tail = 1, heap = h2, fresh = 2\<rparr>)"

text \<open>\<open>_remove(node)\<close>: \<open>node.prev.next = node.next; node.next.prev = node.prev\<close>.\<close>

definition remove_node ::
  "nat \<Rightarrow> (nat \<Rightarrow> ('k, 'v) node) \<Rightarrow> pyerr + (nat \<Rightarrow> ('k, 'v) node)" where
  "remove_node a h =
     (case nprev (h a) of
        None \<Rightarrow> Inl AttributeError
      | Some p \<Rightarrow>
          (let h1 = h(p := (h p)\<lparr>nnext := nnext (h a)\<rparr>)
           in case nnext (h1 a) of
                None \<Rightarrow> Inl AttributeError
              | Some n \<Rightarrow> Inr (h1(n := (h1 n)\<lparr>nprev := nprev (h1 a)\<rparr>))))"

text \<open>
  \<open>_add(node)\<close>: \<open>node.prev = self.head; node.next = self.head.next;
  self.head.next.prev = node; self.head.next = node\<close>.
\<close>

definition add_node ::
  "nat \<Rightarrow> nat \<Rightarrow> (nat \<Rightarrow> ('k, 'v) node) \<Rightarrow> pyerr + (nat \<Rightarrow> ('k, 'v) node)" where
  "add_node hd_ref a h =
     (let h1 = h(a := (h a)\<lparr>nprev := Some hd_ref\<rparr>);
          h2 = h1(a := (h1 a)\<lparr>nnext := nnext (h1 hd_ref)\<rparr>)
      in case nnext (h2 hd_ref) of
           None \<Rightarrow> Inl AttributeError
         | Some n \<Rightarrow>
             (let h3 = h2(n := (h2 n)\<lparr>nprev := Some a\<rparr>)
              in Inr (h3(hd_ref := (h3 hd_ref)\<lparr>nnext := Some a\<rparr>))))"

text \<open>\<open>LRUCache.get\<close>: the value or \<open>None\<close>, and the cache after the call.\<close>

definition lru_get ::
  "'k \<Rightarrow> ('k, 'v) LRUCache \<Rightarrow> pyerr + ('v option \<times> ('k, 'v) LRUCache)" where
  "lru_get k c =
     (case map_of (cache_dict c) k of
        Some a \<Rightarrow>
          (case remove_node a (heap c) of
             Inl e \<Rightarrow> Inl e
           | Inr h1 \<Rightarrow>
               (case add_node (head c) a h1 of
                  Inl e \<Rightarrow> Inl e
                | Inr h2 \<Rightarrow> Inr (nvalue (h2 a), c\<lparr>heap := h2\<rparr>)))
      | None \<Rightarrow> Inr (None, c))"

text \<open>
  \<open>LRUCache.put\<close>. \<open>del self.cache[lru_node.key]\<close> raises KeyError when the key is not
  in the dictionary; \<open>self.tail.prev\<close> being \<open>None\<close> makes \<open>_remove\<close> raise
  AttributeError.
\<close>

definition evict_lru :: "('k, 'v) LRUCache \<Rightarrow> pyerr + ('k, 'v) LRUCache" where
  "evict_lru c =
     (case nprev (heap c (tail c)) of
        None \<Rightarrow> Inl AttributeError
      | Some l \<Rightarrow>
          (case remove_node l (heap c) of
             Inl e \<Rightarrow> Inl e
           | Inr h1 \<Rightarrow>
               (case nkey (h1 l) of
                  None \<Rightarrow> Inl KeyError
                | Some lk \<Rightarrow>
                    (if map_of (cache_dict c) lk = None then Inl KeyError
                     else Inr (c\<lparr>heap := h1, cache_dict := AList.delete lk (cache_dict c)\<rparr>)))))"

definition lru_put :: "'k \<Rightarrow> 'v \<Rightarrow> ('k, 'v) LRUCache \<Rightarrow> pyerr + ('k, 'v) LRUCache" where
  "lru_put k v c =
     (case (case map_of (cache_dict c) k of
              Some old \<Rightarrow> remove_node old (heap c)
            | None \<Rightarrow> Inr (heap c)) of
        Inl e \<Rightarrow> Inl e
      | Inr h1 \<Rightarrow>
          (let a = fresh c;
               h2 = h1(a := Node_init (Some k) (Some v))
           in case add_node (head c) a h2 of
                Inl e \<Rightarrow> Inl e
              | Inr h3 \<Rightarrow>
                  (let c1 = c\<lparr>heap := h3, fresh := Suc a,
                                cache_dict := AList.update k a (cache_dict c)\<rparr>
                   in if int (length (cache_dict c1)) > capacity c1 then evict_lru c1
                      else Inr c1)))"

section \<open>Python truthiness\<close>

text \<open>
  \<open>if x:\<close> on a value that is \<open>None\<close> or a string is false for \<open>None\<close> and for the empty
  string; on \<open>None\<close> or an integer it is false for \<open>None\<close> and for 0.
\<close>

definition truthy_str :: "string option \<Rightarrow> bool" where
  "truthy_str x = (case x of None \<Rightarrow> False | Some s \<Rightarrow> s \<noteq> [])"

definition truthy_int :: "int option \<Rightarrow> bool" where
  "truthy_int x = (case x of None \<Rightarrow> False | Some i \<Rightarrow> i \<noteq> 0)"

section \<open>class URLDatabase\<close>

text \<open>The dictionary stored under each code in \<open>self.stats\<close>; its three keys are fixed.\<close>

record url_stats =
  created_at :: int
  expires_at :: "int option"
  visit_count :: int

text \<open>
  \<open>counter\<close> starts at 0 and is only ever incremented, so it is a natural number.
\<close>

record URLDatabase =
  url_to_code :: "(string \<times> string) list"
  code_to_url :: "(string \<times> string) list"
  stats :: "(string \<times> url_stats) list"
  counter :: nat

definition URLDatabase_init :: URLDatabase where
  "URLDatabase_init = \<lparr>url_to_code = [], code_to_url = [], stats = [], counter = 0\<rparr>"

text \<open>\<open>store\<close>; \<open>now\<close> is what \<open>self._current_timestamp()\<close> returns during the call.\<close>

definition store :: "int \<Rightarrow> string \<Rightarrow> string \<Rightarrow> int option \<Rightarrow> URLDatabase \<Rightarrow> URLDatabase" where
  "store now short_code long_url expiry d =
     d\<lparr>url_to_code := AList.update long_url short_code (url_to_code d),
       code_to_url := AList.update short_code long_url (code_to_url d),
       stats := AList.update short_code
                  \<lparr>created_at = now, expires_at = expiry, visit_count = 0\<rparr> (stats d)\<rparr>"

definition get_url :: "URLDatabase \<Rightarrow> string \<Rightarrow> string option" where
  "get_url d short_code = map_of (code_to_url d) short_code"

definition get_code :: "URLDatabase \<Rightarrow> string \<Rightarrow> string option" where
  "get_code d long_url = map_of (url_to_code d) long_url"

definition increment_visits :: "string \<Rightarrow> URLDatabase \<Rightarrow> URLDatabase" where
  "increment_visits short_code d =
     (case map_of (stats d) short_code of
        Some st \<Rightarrow> d\<lparr>stats := AList.update short_code
                                 (st\<lparr>visit_count := visit_count st + 1\<rparr>) (stats d)\<rparr>
      | None \<Rightarrow> d)"

definition get_stats :: "URLDatabase \<Rightarrow> string \<Rightarrow> url_stats option" where
  "get_stats d short_code = map_of (stats d) short_code"

section \<open>class URLShortener\<close>

text \<open>\<open>self.charset\<close> is assigned once, in the constructor, and never again.\<close>

definition charset :: string where
  "charset = ''0123456789abcdefghijklmnopqrstuvwxyzABCDEFGHIJKLMNOPQRSTUVWXYZ''"

record URLShortener =
  db :: URLDatabase
  cache :: "(string, string) LRUCache"

definition URLShortener_init :: "int \<Rightarrow> URLShortener" where
  "URLShortener_init cache_size = \<lparr>db = URLDatabase_init, cache = LRUCache_init cache_size\<rparr>"

text \<open>
  \<open>_encode_base62\<close>: the loop appends the digit of the remainder to \<open>result\<close> and
  divides; the result is reversed at the end.
\<close>

function encode_loop :: "nat \<Rightarrow> string \<Rightarrow> string" where
  "encode_loop num result =
     (if num = 0 then result
      else encode_loop (num div length charset) (result @ [charset ! (num mod length charset)]))"
  by pat_completeness auto
termination
  by (relation "measure fst") (simp_all add: charset_def)

declare encode_loop.simps [simp del]

definition encode_base62 :: "nat \<Rightarrow> string" where
  "encode_base62 num = (if num = 0 then [charset ! 0] else rev (encode_loop num []))"

text \<open>\<open>str.rjust(width, fillchar)\<close>.\<close>

definition rjust :: "nat \<Rightarrow> char \<Rightarrow> string \<Rightarrow> string" where
  "rjust width fillchar s = replicate (width - length s) fillchar @ s"

text \<open>The code \<open>_generate_code\<close> tries for the sequence number \<open>num\<close> (\<open>length=7\<close>).\<close>

definition code_of :: "nat \<Rightarrow> string" where
  "code_of num = rjust 7 (CHR ''0'') (encode_base62 num)"

text \<open>
  Reading a code back as a number, least significant digit first: the value of a
  character is its position in \<open>charset\<close>. Used to show that distinct sequence numbers
  give distinct codes.
\<close>

definition digit_val :: "char \<Rightarrow> nat" where
  "digit_val c = length (takeWhile (\<lambda>x. x \<noteq> c) charset)"

fun val_lsb :: "string \<Rightarrow> nat" where
  "val_lsb [] = 0"
| "val_lsb (c # cs) = digit_val c + 62 * val_lsb cs"

text \<open>
  \<open>_generate_code\<close>: the \<open>while True\<close> loop. Each pass increments the counter and
  returns the padded code unless the database already maps it to a (non-empty) URL.
\<close>

function generate_code :: "URLDatabase \<Rightarrow> string \<times> URLDatabase" where
  "generate_code d =
     (let d1 = d\<lparr>counter := counter d + 1\<rparr>;
          num = counter d1;
          code = code_of num
      in if \<not> truthy_str (get_url d1 code) then (code, d1) else generate_code d1)"
  by pat_completeness auto

text \<open>\<open>str.split(sep)\<close> for a one-character separator.\<close>

fun split_on :: "char \<Rightarrow> string \<Rightarrow> string list" where
  "split_on sep [] = [[]]"
| "split_on sep (x # xs) =
     (if x = sep then [] # split_on sep xs
      else (case split_on sep xs of p # ps \<Rightarrow> (x # p) # ps | [] \<Rightarrow> [[x]]))"

definition is_valid_url :: "string \<Rightarrow> bool" where
  "is_valid_url url =
     (if length url > 2048 then False
      else if \<not> (take 7 url = ''http://'' \<or> take 8 url = ''https://'') then False
      else (let parts = split_on (CHR ''/'') url
            in if length parts < 3 then False
               else (let domain = parts ! 2
                     in if CHR ''.'' \<notin> set domain then False else True)))"

definition is_valid_code :: "string \<Rightarrow> bool" where
  "is_valid_code code = (if length code \<noteq> 7 then False else (\<forall>c \<in> set code. c \<in> set charset))"

text \<open>
  Lines 121 to 131 of \<open>create_short_url\<close>, shared by the custom and the generated
  branch: the expiry, \<open>db.store\<close>, \<open>cache.put\<close>. \<open>t_exp\<close> is the reading of
  \<open>time.time()\<close> on line 125, \<open>t_store\<close> the one \<open>store\<close> takes for \<open>created_at\<close>.
\<close>

definition store_and_cache ::
  "int \<Rightarrow> int \<Rightarrow> string \<Rightarrow> int option \<Rightarrow> string \<Rightarrow> URLShortener
     \<Rightarrow> pyerr + ((bool \<times> string) \<times> URLShortener)" where
  "store_and_cache t_exp t_store long_url expiry_days short_code s =
     (let expiry = (if truthy_int expiry_days
                    then (case expiry_days of Some n \<Rightarrow> Some (t_exp + n * 24 * 60 * 60)
                                            | None \<Rightarrow> None)
                    else None);
          d1 = store t_store short_code long_url expiry (db s)
      in case lru_put short_code long_url (cache s) of
           Inl e \<Rightarrow> Inl e
         | Inr c1 \<Rightarrow> Inr ((True, short_code), s\<lparr>db := d1, cache := c1\<rparr>))"

definition generate_and_store ::
  "int \<Rightarrow> int \<Rightarrow> string \<Rightarrow> int option \<Rightarrow> URLShortener
     \<Rightarrow> pyerr + ((bool \<times> string) \<times> URLShortener)" where
  "generate_and_store t_exp t_store long_url expiry_days s =
     (case generate_code (db s) of
        (short_code, d1) \<Rightarrow>
          store_and_cache t_exp t_store long_url expiry_days short_code (s\<lparr>db := d1\<rparr>))"

text \<open>
  Lines 111 to 131: \<open>if custom_code:\<close> is false for \<open>None\<close> and for the empty string.
\<close>

definition create_new ::
  "int \<Rightarrow> int \<Rightarrow> string \<Rightarrow> string option \<Rightarrow> int option \<Rightarrow> URLShortener
     \<Rightarrow> pyerr + ((bool \<times> string) \<times> URLShortener)" where
  "create_new t_exp t_store long_url custom_code expiry_days s =
     (case custom_code of
        None \<Rightarrow> generate_and_store t_exp t_store long_url expiry_days s
      | Some cc \<Rightarrow>
          if cc = [] then generate_and_store t_exp t_store long_url expiry_days s
          else if \<not> is_valid_code cc then Inr ((False, ''Invalid custom code''), s)
          else if truthy_str (get_url (db s) cc)
               then Inr ((False, ''Custom code already in use''), s)
          else store_and_cache t_exp t_store long_url expiry_days cc s)"

text \<open>
  \<open>create_short_url\<close>; \<open>if existing_code:\<close> is false for \<open>None\<close> and for the empty
  string.
\<close>

definition create_short_url ::
  "int \<Rightarrow> int \<Rightarrow> string \<Rightarrow> string option \<Rightarrow> int option \<Rightarrow> URLShortener
     \<Rightarrow> pyerr + ((bool \<times> string) \<times> URLShortener)" where
  "create_short_url t_exp t_store long_url custom_code expiry_days s =
     (if \<not> is_valid_url long_url then Inr ((False, ''Invalid URL format''), s)
      else (case get_code (db s) long_url of
              None \<Rightarrow> create_new t_exp t_store long_url custom_code expiry_days s
            | Some existing_code \<Rightarrow>
                if existing_code \<noteq> [] then Inr ((True, existing_code), s)
                else create_new t_exp t_store long_url custom_code expiry_days s))"

text \<open>
  \<open>get_long_url\<close>; \<open>now\<close> is what \<open>self._current_timestamp()\<close> returns on line 148 (read
  only when \<open>expires_at\<close> is truthy). \<open>stats['expires_at']\<close> on \<open>None\<close> raises TypeError.
\<close>

definition get_long_url ::
  "int \<Rightarrow> string \<Rightarrow> URLShortener \<Rightarrow> pyerr + ((bool \<times> string) \<times> URLShortener)" where
  "get_long_url now short_code s =
     (case lru_get short_code (cache s) of
        Inl e \<Rightarrow> Inl e
      | Inr (cached_url, c1) \<Rightarrow>
          (let s1 = s\<lparr>cache := c1\<rparr>
           in case (if truthy_str cached_url then cached_url else None) of
                Some u \<Rightarrow> Inr ((True, u), s1\<lparr>db := increment_visits short_code (db s1)\<rparr>)
              | None \<Rightarrow>
                  (case (if truthy_str (get_url (db s1) short_code)
                         then get_url (db s1) short_code else None) of
                     None \<Rightarrow> Inr ((False, ''URL not found''), s1)
                   | Some long_url \<Rightarrow>
                       (case get_stats (db s1) short_code of
                          None \<Rightarrow> Inl TypeError
                        | Some st \<Rightarrow>
                            if truthy_int (expires_at st)
                               \<and> (case expires_at st of Some e \<Rightarrow> e < now | None \<Rightarrow> False)
                            then Inr ((False, ''URL has expired''), s1)
                            else (let d1 = increment_visits short_code (db s1)
                                  in case lru_put short_code long_url (cache s1) of
                                       Inl e \<Rightarrow> Inl e
                                     | Inr c2 \<Rightarrow>
                                         Inr ((True, long_url), s1\<lparr>db := d1, cache := c2\<rparr>))))))"

text \<open>\<open>get_url_stats\<close>: it changes nothing. A stats dictionary is never empty, so
  \<open>if not stats\<close> holds for \<open>None\<close> only.\<close>

definition get_url_stats :: "string \<Rightarrow> URLShortener \<Rightarrow> bool \<times> (string + url_stats)" where
  "get_url_stats short_code s =
     (case get_stats (db s) short_code of
        None \<Rightarrow> (False, Inl ''URL not found'')
      | Some st \<Rightarrow> (True, Inr st))"

section \<open>The public operations and the states they reach\<close>

text \<open>
  A call of a public method, with the clock readings it takes. A run stops at the first
  Python error, as the exception would.
\<close>

datatype op =
    Create int int string "string option" "int option"
  | Resolve int string
  | Stats string

fun step :: "op \<Rightarrow> URLShortener \<Rightarrow> pyerr + URLShortener" where
  "step (Create t_exp t_store long_url custom_code expiry_days) s =
     (case create_short_url t_exp t_store long_url custom_code expiry_days s of
        Inl e \<Rightarrow> Inl e | Inr (r, s') \<Rightarrow> Inr s')"
| "step (Resolve now short_code) s =
     (case get_long_url now short_code s of Inl e \<Rightarrow> Inl e | Inr (r, s') \<Rightarrow> Inr s')"
| "step (Stats short_code) s = Inr s"

fun run :: "op list \<Rightarrow> URLShortener \<Rightarrow> pyerr + URLShortener" where
  "run [] s = Inr s"
| "run (x # xs) s = (case step x s of Inl e \<Rightarrow> Inl e | Inr s' \<Rightarrow> run xs s')"

definition reachable :: "URLShortener \<Rightarrow> bool" where
  "reachable s = (\<exists>cache_size ops. run ops (URLShortener_init cache_size) = Inr s)"

section \<open>The cache as a list: the invariant of the linked list\<close>

text \<open>
  \<open>links h L\<close>: in the heap \<open>h\<close>, each node of \<open>L\<close> has the following one as \<open>next\<close>
  and is its \<open>prev\<close>.
\<close>

fun links :: "(nat \<Rightarrow> ('k, 'v) node) \<Rightarrow> nat list \<Rightarrow> bool" where
  "links h (x # y # zs) = (nnext (h x) = Some y \<and> nprev (h y) = Some x \<and> links h (y # zs))"
| "links h [x] = True"
| "links h [] = True"

text \<open>
  \<open>lru_nodes c ns\<close>: the cache \<open>c\<close> is well formed and holds the nodes \<open>ns\<close> (reference,
  key, value), most recently used first: the list from \<open>head\<close> to \<open>tail\<close> is linked
  through exactly these nodes, and the dictionary maps each key to its node.
\<close>

definition lru_nodes :: "('k, 'v) LRUCache \<Rightarrow> (nat \<times> 'k \<times> 'v) list \<Rightarrow> bool" where
  "lru_nodes c ns =
     (links (heap c) (head c # map fst ns @ [tail c])
      \<and> distinct (head c # map fst ns @ [tail c])
      \<and> head c < fresh c \<and> tail c < fresh c \<and> (\<forall>a \<in> set (map fst ns). a < fresh c)
      \<and> (\<forall>(a, k, v) \<in> set ns. nkey (heap c a) = Some k \<and> nvalue (heap c a) = Some v)
      \<and> distinct (map (\<lambda>(a, k, v). k) ns)
      \<and> distinct (map fst (cache_dict c))
      \<and> set (cache_dict c) = (\<lambda>(a, k, v). (k, a)) ` set ns)"

definition lru_rep :: "('k, 'v) LRUCache \<Rightarrow> ('k \<times> 'v) list \<Rightarrow> bool" where
  "lru_rep c kvs = (\<exists>ns. lru_nodes c ns \<and> map snd ns = kvs)"

text \<open>
  The cache as the specification words it: a list of entries, most recently used first.
  \<open>get\<close> moves the entry to the front; \<open>put\<close> replaces or inserts the entry at the front
  and drops the last entry when the list is longer than the capacity.
\<close>

definition recency_get :: "'k \<Rightarrow> ('k \<times> 'v) list \<Rightarrow> ('k \<times> 'v) list" where
  "recency_get k kvs =
     (case map_of kvs k of None \<Rightarrow> kvs | Some v \<Rightarrow> (k, v) # AList.delete k kvs)"

definition recency_put :: "int \<Rightarrow> 'k \<Rightarrow> 'v \<Rightarrow> ('k \<times> 'v) list \<Rightarrow> ('k \<times> 'v) list" where
  "recency_put cap k v kvs =
     (let l = (k, v) # AList.delete k kvs
      in if int (length l) > cap then butlast l else l)"

section \<open>The alphabet and the encoding\<close>

lemma charset_length: "length charset = 62" by (simp add: charset_def)
lemma charset_distinct: "distinct charset" by (simp add: charset_def)
lemma charset_zero: "charset ! 0 = CHR ''0''" by (simp add: charset_def)

lemma encode_loop_0: "encode_loop 0 acc = acc"
  by (subst encode_loop.simps) simp

lemma encode_loop_step:
  "n \<noteq> 0 \<Longrightarrow> encode_loop n acc = encode_loop (n div 62) (acc @ [charset ! (n mod 62)])"
  by (subst encode_loop.simps) (simp add: charset_length)

lemma encode_loop_set: "set (encode_loop n acc) \<subseteq> set acc \<union> set charset"
proof (induction n acc rule: encode_loop.induct)
  case (1 num result)
  show ?case
  proof (cases "num = 0")
    case True then show ?thesis by (simp add: encode_loop_0)
  next
    case False
    have m: "charset ! (num mod 62) \<in> set charset"
      by (simp add: charset_length)
    have "set (encode_loop (num div 62) (result @ [charset ! (num mod 62)]))
            \<subseteq> set (result @ [charset ! (num mod 62)]) \<union> set charset"
      using 1[OF False] by (simp only: charset_length)
    with m show ?thesis
      unfolding encode_loop_step[OF False] by auto
  qed
qed

lemma encode_loop_length_le:
  "n < 62 ^ k \<Longrightarrow> length (encode_loop n acc) \<le> length acc + k"
proof (induction k arbitrary: n acc)
  case 0 
  then have "n = 0" by simp
  then show ?case by (simp add: encode_loop_0)
next
  case (Suc k)
  show ?case
  proof (cases "n = 0")
    case True then show ?thesis by (simp add: encode_loop_0)
  next
    case False
    from Suc.prems have "n div 62 < 62 ^ k"
      by (simp add: less_mult_imp_div_less mult.commute)
    from Suc.IH[OF this, of "acc @ [charset ! (n mod 62)]"]
    show ?thesis unfolding encode_loop_step[OF False] by simp
  qed
qed

lemma encode_loop_length_mono: "length acc \<le> length (encode_loop n acc)"
proof (induction n acc rule: encode_loop.induct)
  case (1 num result)
  show ?case
  proof (cases "num = 0")
    case True then show ?thesis by (simp add: encode_loop_0)
  next
    case False
    have "length (result @ [charset ! (num mod 62)])
            \<le> length (encode_loop (num div 62) (result @ [charset ! (num mod 62)]))"
      using 1[OF False] by (simp only: charset_length)
    then show ?thesis
      unfolding encode_loop_step[OF False] by simp
  qed
qed

lemma encode_loop_length_ge:
  "62 ^ k \<le> n \<Longrightarrow> length acc + Suc k \<le> length (encode_loop n acc)"
proof (induction k arbitrary: n acc)
  case 0 
  then have nz: "n \<noteq> 0" by simp
  show ?case using encode_loop_length_mono[of "acc @ [charset ! (n mod 62)]" "n div 62"]
    unfolding encode_loop_step[OF nz] by simp
next
  case (Suc k)
  have "(0::nat) < 62 ^ Suc k" by simp
  then have "0 < n" using Suc.prems by (rule less_le_trans)
  then have nz: "n \<noteq> 0" by simp
  from Suc.prems have "62 ^ k \<le> n div 62"
    by (simp add: less_eq_div_iff_mult_less_eq mult.commute)
  from Suc.IH[OF this, of "acc @ [charset ! (n mod 62)]"]
  show ?case unfolding encode_loop_step[OF nz] by simp
qed


lemma takeWhile_neq_nth:
  "distinct xs \<Longrightarrow> i < length xs \<Longrightarrow> length (takeWhile (\<lambda>x. x \<noteq> xs ! i) xs) = i"
proof (induction xs arbitrary: i)
  case Nil then show ?case by simp
next
  case (Cons a xs)
  show ?case
  proof (cases i)
    case 0 then show ?thesis by simp
  next
    case (Suc j)
    with Cons.prems have "xs ! j \<in> set xs" by simp
    with Cons.prems have "a \<noteq> xs ! j" by auto
    with Suc Cons show ?thesis by simp
  qed
qed

lemma digit_val_nth: "i < 62 \<Longrightarrow> digit_val (charset ! i) = i"
  unfolding digit_val_def
  by (rule takeWhile_neq_nth) (simp_all add: charset_distinct charset_length)

lemma val_lsb_append: "val_lsb (xs @ ys) = val_lsb xs + 62 ^ length xs * val_lsb ys"
  by (induction xs) (simp_all add: algebra_simps)

lemma val_lsb_encode_loop: "val_lsb (encode_loop n acc) = val_lsb acc + 62 ^ length acc * n"
proof (induction n acc rule: encode_loop.induct)
  case (1 num result)
  show ?case
  proof (cases "num = 0")
    case True then show ?thesis by (simp add: encode_loop_0)
  next
    case False
    have "val_lsb (encode_loop (num div 62) (result @ [charset ! (num mod 62)]))
            = val_lsb (result @ [charset ! (num mod 62)])
              + 62 ^ length (result @ [charset ! (num mod 62)]) * (num div 62)"
      using 1[OF False] by (simp only: charset_length)
    also have "\<dots> = val_lsb result + 62 ^ length result * (num mod 62)
                      + 62 ^ length result * (62 * (num div 62))"
      by (simp add: val_lsb_append digit_val_nth)
    also have "\<dots> = val_lsb result + 62 ^ length result * (num mod 62 + 62 * (num div 62))"
      by (simp only: distrib_left add.assoc)
    also have "num mod 62 + 62 * (num div 62) = num" by simp
    finally show ?thesis unfolding encode_loop_step[OF False] .
  qed
qed

lemma val_lsb_replicate_zero: "val_lsb (replicate m (CHR ''0'')) = 0"
proof -
  have "digit_val (CHR ''0'') = 0"
    using digit_val_nth[of 0] by (simp add: charset_zero)
  then show ?thesis by (induction m) simp_all
qed

lemma val_lsb_code_of: "val_lsb (rev (code_of n)) = n"
proof (cases "n = 0")
  case True
  have "digit_val (CHR ''0'') = 0"
    using digit_val_nth[of 0] by (simp add: charset_zero)
  with True show ?thesis
    by (simp add: code_of_def rjust_def encode_base62_def charset_zero val_lsb_append
        val_lsb_replicate_zero)
next
  case False
  then show ?thesis
    by (simp add: code_of_def rjust_def encode_base62_def val_lsb_append
        val_lsb_replicate_zero val_lsb_encode_loop)
qed

lemma code_of_inj: "inj code_of"
  by (rule inj_on_inverseI[where g = "\<lambda>s. val_lsb (rev s)"]) (rule val_lsb_code_of)

lemma in_use_finite: "finite {n. truthy_str (map_of al (code_of n))}"
proof -
  have "{n. truthy_str (map_of al (code_of n))} \<subseteq> code_of -` (fst ` set al)"
    by (force simp: truthy_str_def split: option.splits dest!: map_of_SomeD)
  moreover have "finite (code_of -` (fst ` set al))"
    by (rule finite_vimageI) (simp_all add: code_of_inj)
  ultimately show ?thesis by (rule finite_subset)
qed


lemma generate_code_measure:
  assumes "truthy_str (get_url d (code_of (Suc (counter d))))"
  shows "card {n. Suc (counter d) < n \<and> truthy_str (get_url d (code_of n))}
           < card {n. counter d < n \<and> truthy_str (get_url d (code_of n))}"
proof -
  have fin: "finite {n. counter d < n \<and> truthy_str (get_url d (code_of n))}"
    by (rule finite_subset[OF _ in_use_finite[of "code_to_url d"]]) (auto simp: get_url_def)
  have "Suc (counter d) \<in> {n. counter d < n \<and> truthy_str (get_url d (code_of n))}"
    using assms by simp
  then have "{n. Suc (counter d) < n \<and> truthy_str (get_url d (code_of n))}
          \<subset> {n. counter d < n \<and> truthy_str (get_url d (code_of n))}"
    by auto
  with fin show ?thesis by (rule psubset_card_mono)
qed

termination generate_code
proof (relation "measure (\<lambda>d. card {n. counter d < n \<and> truthy_str (get_url d (code_of n))})")
  show "wf (measure (\<lambda>d. card {n. counter d < n \<and> truthy_str (get_url d (code_of n))}))"
    by simp
next
  fix d d1 :: URLDatabase and num code
  assume "d1 = d\<lparr>counter := counter d + 1\<rparr>" "num = counter d1" "code = code_of num"
    "\<not> \<not> truthy_str (get_url d1 code)"
  then have "truthy_str (get_url d (code_of (Suc (counter d))))"
    by (simp add: get_url_def)
  from generate_code_measure[OF this]
  show "(d1, d) \<in> measure (\<lambda>d. card {n. counter d < n \<and> truthy_str (get_url d (code_of n))})"
    using \<open>d1 = d\<lparr>counter := counter d + 1\<rparr>\<close> by (simp add: get_url_def)
qed

declare generate_code.simps [simp del]

lemma generate_code_props:
  "generate_code d = (code, d') \<Longrightarrow>
     counter d < counter d' \<and> code = code_of (counter d') \<and> \<not> truthy_str (get_url d code)
     \<and> url_to_code d' = url_to_code d \<and> code_to_url d' = code_to_url d \<and> stats d' = stats d
     \<and> (\<forall>n. counter d < n \<and> n < counter d' \<longrightarrow> truthy_str (get_url d (code_of n)))"
proof (induction d arbitrary: code d' rule: generate_code.induct)
  case (1 d)
  let ?d1 = "d\<lparr>counter := counter d + 1\<rparr>"
  show ?case
  proof (cases "truthy_str (get_url ?d1 (code_of (counter ?d1)))")
    case False
    with "1.prems" have "code = code_of (counter ?d1)" "d' = ?d1"
      by (subst (asm) generate_code.simps, simp add: Let_def)+
    with False show ?thesis by (auto simp: get_url_def)
  next
    case True
    with "1.prems" have g: "generate_code ?d1 = (code, d')"
      by (subst (asm) generate_code.simps) (simp add: Let_def)
    have ih: "counter ?d1 < counter d' \<and> code = code_of (counter d')
       \<and> \<not> truthy_str (get_url ?d1 code)
     \<and> url_to_code d' = url_to_code ?d1 \<and> code_to_url d' = code_to_url ?d1 \<and> stats d' = stats ?d1
     \<and> (\<forall>n. counter ?d1 < n \<and> n < counter d' \<longrightarrow> truthy_str (get_url ?d1 (code_of n)))"
      using "1.IH"[OF refl refl refl _ g] True by blast
    have "\<And>n. counter d < n \<Longrightarrow> n < counter d' \<Longrightarrow> truthy_str (get_url d (code_of n))"
    proof -
      fix n assume "counter d < n" "n < counter d'"
      then consider "n = Suc (counter d)" | "counter ?d1 < n" by fastforce
      then show "truthy_str (get_url d (code_of n))"
      proof cases
        case 1 with True show ?thesis by (simp add: get_url_def)
      next
        case 2 with ih \<open>n < counter d'\<close> show ?thesis by (simp add: get_url_def)
      qed
    qed
    with ih show ?thesis by (auto simp: get_url_def)
  qed
qed

lemma code_of_set: "set (code_of n) \<subseteq> set charset"
proof -
  have "CHR ''0'' \<in> set charset" by (simp add: charset_def)
  moreover have "set (encode_loop n []) \<subseteq> set charset" using encode_loop_set[of n "[]"] by simp
  ultimately show ?thesis
    by (auto simp: code_of_def rjust_def encode_base62_def charset_zero)
qed

lemma code_of_length_ge: "7 \<le> length (code_of n)"
  by (simp add: code_of_def rjust_def)

lemma code_of_length_small: "n < 62 ^ 7 \<Longrightarrow> length (code_of n) = 7"
proof -
  assume "n < 62 ^ 7"
  then have "length (encode_loop n []) \<le> 7" using encode_loop_length_le[of n 7 "[]"] by simp
  then show ?thesis by (simp add: code_of_def rjust_def encode_base62_def)
qed

lemma code_of_length_large: "62 ^ 7 \<le> n \<Longrightarrow> 7 < length (code_of n)"
proof -
  assume a: "62 ^ 7 \<le> n"
  then have "8 \<le> length (encode_loop n [])" using encode_loop_length_ge[of 7 n "[]"] by simp
  moreover from a have "n \<noteq> 0" by auto
  ultimately show ?thesis by (simp add: code_of_def rjust_def encode_base62_def)
qed

section \<open>The linked list: \<open>_remove\<close>, \<open>_add\<close>, \<open>get\<close> and \<open>put\<close> keep the invariant\<close>

lemma links_append: "links h (xs @ y # ys) = (links h (xs @ [y]) \<and> links h (y # ys))"
proof (induction xs)
  case Nil then show ?case by simp
next
  case (Cons x xs) then show ?case by (cases xs) auto
qed

lemma links_frame:
  "\<forall>x \<in> set (butlast L). nnext (h' x) = nnext (h x) \<Longrightarrow>
   \<forall>x \<in> set (tl L). nprev (h' x) = nprev (h x) \<Longrightarrow> links h' L = links h L"
proof (induction L)
  case Nil then show ?case by simp
next
  case (Cons x L) then show ?case by (cases L) auto
qed


lemma links_append2:
  "links h (xs @ y # z # zs) = (links h (xs @ [y]) \<and> links h (y # z # zs))"
  by (rule links_append)

lemma links_mid:
  assumes "links h (P @ p # a # n # N)"
  shows "nprev (h a) = Some p" "nnext (h a) = Some n" "links h (P @ [p])" "links h (n # N)"
proof -
  from assms have "links h (p # a # n # N)" by (simp only: links_append2)
  then show "nprev (h a) = Some p" "nnext (h a) = Some n" "links h (n # N)" by simp_all
  from assms show "links h (P @ [p])" by (simp only: links_append2)
qed

lemma remove_node_links:
  assumes l: "links h (P @ p # a # n # N)" and d: "distinct (P @ p # a # n # N)"
  shows "\<exists>h'. remove_node a h = Inr h' \<and> links h' (P @ p # n # N)
           \<and> (\<forall>x. nkey (h' x) = nkey (h x) \<and> nvalue (h' x) = nvalue (h x))
           \<and> (\<forall>x. x \<notin> set (P @ p # a # n # N) \<longrightarrow> h' x = h x)"
proof -
  note m = links_mid[OF l]
  from d have ne: "a \<noteq> p" "a \<noteq> n" "p \<noteq> n" by auto
  define h1 where "h1 = h(p := (h p)\<lparr>nnext := Some n\<rparr>)"
  define h2 where "h2 = h1(n := (h1 n)\<lparr>nprev := Some p\<rparr>)"
  have r: "remove_node a h = Inr h2"
    using m(1,2) ne by (simp add: remove_node_def h1_def h2_def Let_def)
  have nx: "\<And>x. x \<noteq> p \<Longrightarrow> nnext (h2 x) = nnext (h x)" by (simp add: h1_def h2_def)
  have pv: "\<And>x. x \<noteq> n \<Longrightarrow> nprev (h2 x) = nprev (h x)" by (simp add: h1_def h2_def)
  have "links h2 (P @ [p]) = links h (P @ [p])"
  proof (rule links_frame)
    show "\<forall>x\<in>set (butlast (P @ [p])). nnext (h2 x) = nnext (h x)"
      using d by (auto intro!: nx)
    show "\<forall>x\<in>set (tl (P @ [p])). nprev (h2 x) = nprev (h x)"
    proof
      fix x assume "x \<in> set (tl (P @ [p]))"
      then have "x \<in> set (P @ [p])" by (metis list.set_sel(2) tl_Nil)
      with d have "x \<noteq> n" by auto
      then show "nprev (h2 x) = nprev (h x)" by (rule pv)
    qed
  qed
  moreover have "links h2 (n # N) = links h (n # N)"
  proof (rule links_frame)
    show "\<forall>x\<in>set (butlast (n # N)). nnext (h2 x) = nnext (h x)"
    proof
      fix x assume "x \<in> set (butlast (n # N))"
      then have "x \<in> set (n # N)" by (rule in_set_butlastD)
      with d have "x \<noteq> p" by auto
      then show "nnext (h2 x) = nnext (h x)" by (rule nx)
    qed
    show "\<forall>x\<in>set (tl (n # N)). nprev (h2 x) = nprev (h x)"
      using d by (auto intro!: pv)
  qed
  moreover have "nnext (h2 p) = Some n" "nprev (h2 n) = Some p"
    using ne by (simp_all add: h1_def h2_def)
  ultimately have "links h2 (P @ [p]) \<and> links h2 (p # n # N)"
    using m(3,4) by simp
  then have "links h2 (P @ p # n # N)" by (simp only: links_append2)
  moreover have "\<forall>x. nkey (h2 x) = nkey (h x) \<and> nvalue (h2 x) = nvalue (h x)"
    by (simp add: h1_def h2_def)
  moreover have "\<forall>x. x \<notin> set (P @ p # a # n # N) \<longrightarrow> h2 x = h x"
    by (simp add: h1_def h2_def)
  ultimately show ?thesis using r by blast
qed

lemma add_node_links:
  assumes l: "links h (hd_ref # n # N)" and d: "distinct (hd_ref # n # N)"
    and a: "a \<notin> set (hd_ref # n # N)"
  shows "\<exists>h'. add_node hd_ref a h = Inr h' \<and> links h' (hd_ref # a # n # N)
           \<and> (\<forall>x. nkey (h' x) = nkey (h x) \<and> nvalue (h' x) = nvalue (h x))
           \<and> (\<forall>x. x \<notin> set (a # hd_ref # n # N) \<longrightarrow> h' x = h x)"
proof -
  from l have hn: "nnext (h hd_ref) = Some n" by simp
  from a d have ne: "a \<noteq> hd_ref" "a \<noteq> n" "hd_ref \<noteq> n" by auto
  define h1 where "h1 = h(a := (h a)\<lparr>nprev := Some hd_ref\<rparr>)"
  define h2 where "h2 = h1(a := (h1 a)\<lparr>nnext := Some n\<rparr>)"
  define h3 where "h3 = h2(n := (h2 n)\<lparr>nprev := Some a\<rparr>)"
  define h4 where "h4 = h3(hd_ref := (h3 hd_ref)\<lparr>nnext := Some a\<rparr>)"
  have r: "add_node hd_ref a h = Inr h4"
    using hn ne by (simp add: add_node_def h1_def h2_def h3_def h4_def Let_def)
  have nx: "\<And>x. x \<noteq> hd_ref \<Longrightarrow> x \<noteq> a \<Longrightarrow> nnext (h4 x) = nnext (h x)"
    by (simp add: h1_def h2_def h3_def h4_def)
  have pv: "\<And>x. x \<noteq> n \<Longrightarrow> x \<noteq> a \<Longrightarrow> nprev (h4 x) = nprev (h x)"
    by (simp add: h1_def h2_def h3_def h4_def)
  have "links h4 (n # N) = links h (n # N)"
  proof (rule links_frame)
    show "\<forall>x\<in>set (butlast (n # N)). nnext (h4 x) = nnext (h x)"
    proof
      fix x assume "x \<in> set (butlast (n # N))"
      then have "x \<in> set (n # N)" by (rule in_set_butlastD)
      with d a have "x \<noteq> hd_ref" "x \<noteq> a" by auto
      then show "nnext (h4 x) = nnext (h x)" by (rule nx)
    qed
    show "\<forall>x\<in>set (tl (n # N)). nprev (h4 x) = nprev (h x)"
      using d a by (auto intro!: pv)
  qed
  moreover have "links h (n # N)" using l by simp
  moreover have "nnext (h4 hd_ref) = Some a" "nprev (h4 a) = Some hd_ref"
    "nnext (h4 a) = Some n" "nprev (h4 n) = Some a"
    using ne by (simp_all add: h1_def h2_def h3_def h4_def)
  ultimately have "links h4 (hd_ref # a # n # N)" by simp
  moreover have "\<forall>x. nkey (h4 x) = nkey (h x) \<and> nvalue (h4 x) = nvalue (h x)"
    by (simp add: h1_def h2_def h3_def h4_def)
  moreover have "\<forall>x. x \<notin> set (a # hd_ref # n # N) \<longrightarrow> h4 x = h x"
    by (simp add: h1_def h2_def h3_def h4_def)
  ultimately show ?thesis using r by blast
qed

lemma lru_nodesD:
  assumes "lru_nodes c ns"
  shows "links (heap c) (head c # map fst ns @ [tail c])"
    and "distinct (head c # map fst ns @ [tail c])"
    and "head c < fresh c" and "tail c < fresh c"
    and "\<And>a. a \<in> set (map fst ns) \<Longrightarrow> a < fresh c"
    and "\<And>a k v. (a, k, v) \<in> set ns \<Longrightarrow> nkey (heap c a) = Some k \<and> nvalue (heap c a) = Some v"
    and "distinct (map (\<lambda>(a, k, v). k) ns)"
    and "distinct (map fst (cache_dict c))"
    and "set (cache_dict c) = (\<lambda>(a, k, v). (k, a)) ` set ns"
  using assms unfolding lru_nodes_def by blast+

lemma lru_nodesI:
  assumes "links (heap c) (head c # map fst ns @ [tail c])"
    and "distinct (head c # map fst ns @ [tail c])"
    and "head c < fresh c" and "tail c < fresh c"
    and "\<And>a. a \<in> set (map fst ns) \<Longrightarrow> a < fresh c"
    and "\<And>a k v. (a, k, v) \<in> set ns \<Longrightarrow> nkey (heap c a) = Some k \<and> nvalue (heap c a) = Some v"
    and "distinct (map (\<lambda>(a, k, v). k) ns)"
    and "distinct (map fst (cache_dict c))"
    and "set (cache_dict c) = (\<lambda>(a, k, v). (k, a)) ` set ns"
  shows "lru_nodes c ns"
  using assms unfolding lru_nodes_def by blast

lemma lru_nodes_lookup:
  assumes i: "lru_nodes c ns"
  shows "(map_of (cache_dict c) k = Some a) = (\<exists>v. (a, k, v) \<in> set ns)"
proof -
  have "(map_of (cache_dict c) k = Some a) = ((k, a) \<in> set (cache_dict c))"
    using lru_nodesD(8)[OF i] by simp
  also have "\<dots> = (\<exists>v. (a, k, v) \<in> set ns)"
    unfolding lru_nodesD(9)[OF i] by force
  finally show ?thesis .
qed

lemma lru_nodes_length:
  assumes i: "lru_nodes c ns"
  shows "length (cache_dict c) = length ns"
proof -
  have d1: "distinct (cache_dict c)"
    using lru_nodesD(8)[OF i] by (simp add: distinct_map)
  have dm: "distinct (map fst ns)" using lru_nodesD(2)[OF i] by simp
  then have d2: "distinct ns" by (simp add: distinct_map)
  have inj: "inj_on (\<lambda>(a, k, v). (k, a)) (set ns)"
  proof (rule inj_onI)
    fix x y assume xy: "x \<in> set ns" "y \<in> set ns"
      and e: "(case x of (a, k, v) \<Rightarrow> (k, a)) = (case y of (a, k, v) \<Rightarrow> (k, a))"
    from e have "fst x = fst y" by (auto split: prod.splits)
    moreover from dm have "inj_on fst (set ns)" by (simp add: distinct_map)
    ultimately show "x = y" using xy by (rule_tac inj_onD)
  qed
  have "length (cache_dict c) = card (set (cache_dict c))" using d1 by (simp add: distinct_card)
  also have "\<dots> = card ((\<lambda>(a, k, v). (k, a)) ` set ns)" by (simp only: lru_nodesD(9)[OF i])
  also have "\<dots> = card (set ns)" using inj by (rule card_image)
  also have "\<dots> = length ns" using d2 by (simp add: distinct_card)
  finally show ?thesis .
qed

lemma update_set:
  "distinct (map fst al) \<Longrightarrow> set (AList.update k v al) = insert (k, v) {p \<in> set al. fst p \<noteq> k}"
  by (induction al) (auto simp: rev_image_eqI)

lemma nonempty_snoc: "\<exists>P p. x # xs = P @ [p]"
  by (metis append_butlast_last_id list.distinct(1))

lemma nonempty_cons: "\<exists>n N. xs @ [t] = n # N"
  by (cases xs) auto

text \<open>Unlinking a node of the list.\<close>

lemma unlink_node:
  assumes l: "links h (hd_ref # map fst (xs @ (a, k, v) # ys) @ [tl_ref])"
    and d: "distinct (hd_ref # map fst (xs @ (a, k, v) # ys) @ [tl_ref])"
  shows "\<exists>h'. remove_node a h = Inr h' \<and> links h' (hd_ref # map fst (xs @ ys) @ [tl_ref])
           \<and> (\<forall>x. nkey (h' x) = nkey (h x) \<and> nvalue (h' x) = nvalue (h x))"
proof -
  obtain P p where P: "hd_ref # map fst xs = P @ [p]"
    using nonempty_snoc[of hd_ref "map fst xs"] by blast
  obtain n N where N: "map fst ys @ [tl_ref] = n # N"
    using nonempty_cons[of "map fst ys" tl_ref] by blast
  have e: "hd_ref # map fst (xs @ (a, k, v) # ys) @ [tl_ref] = P @ p # a # n # N"
    using P N by (metis append.assoc append_Cons append_Nil fst_conv list.simps(9) map_append)
  have e': "hd_ref # map fst (xs @ ys) @ [tl_ref] = P @ p # n # N"
    using P N by (metis append.assoc append_Cons append_Nil map_append)
  from remove_node_links[OF l[unfolded e] d[unfolded e]] show ?thesis
    unfolding e' by blast
qed

lemma push_front:
  assumes l: "links h (hd_ref # map fst ns @ [tl_ref])"
    and d: "distinct (hd_ref # map fst ns @ [tl_ref])"
    and a: "a \<notin> set (hd_ref # map fst ns @ [tl_ref])"
  shows "\<exists>h'. add_node hd_ref a h = Inr h' \<and> links h' (hd_ref # a # map fst ns @ [tl_ref])
           \<and> (\<forall>x. nkey (h' x) = nkey (h x) \<and> nvalue (h' x) = nvalue (h x))"
proof -
  obtain n N where N: "map fst ns @ [tl_ref] = n # N"
    using nonempty_cons[of "map fst ns" tl_ref] by blast
  from add_node_links[of h hd_ref n N a] l d a show ?thesis
    unfolding N by blast
qed

lemma lru_get_hit:
  assumes i: "lru_nodes c (xs @ (a, k, v) # ys)"
  shows "\<exists>c'. lru_get k c = Inr (Some v, c') \<and> lru_nodes c' ((a, k, v) # xs @ ys)
           \<and> capacity c' = capacity c \<and> cache_dict c' = cache_dict c"
proof -
  let ?ns = "xs @ (a, k, v) # ys"
  note D = lru_nodesD[OF i]
  have m: "map_of (cache_dict c) k = Some a"
    using lru_nodes_lookup[OF i, of k a] by auto
  from unlink_node[OF D(1) D(2)] obtain h1 where
    r: "remove_node a (heap c) = Inr h1"
    and l1: "links h1 (head c # map fst (xs @ ys) @ [tail c])"
    and k1: "\<forall>x. nkey (h1 x) = nkey (heap c x) \<and> nvalue (h1 x) = nvalue (heap c x)" by blast
  from D(2) have d1: "distinct (head c # map fst (xs @ ys) @ [tail c])"
    and a1: "a \<notin> set (head c # map fst (xs @ ys) @ [tail c])" by auto
  from push_front[OF l1 d1 a1] obtain h2 where
    ad: "add_node (head c) a h1 = Inr h2"
    and l2: "links h2 (head c # a # map fst (xs @ ys) @ [tail c])"
    and k2: "\<forall>x. nkey (h2 x) = nkey (h1 x) \<and> nvalue (h2 x) = nvalue (h1 x)" by blast
  have va: "nvalue (heap c a) = Some v" using D(6)[of a k v] by simp
  have g: "lru_get k c = Inr (Some v, c\<lparr>heap := h2\<rparr>)"
    using m r ad k1 k2 va by (simp add: lru_get_def)
  have "lru_nodes (c\<lparr>heap := h2\<rparr>) ((a, k, v) # xs @ ys)"
  proof (rule lru_nodesI)
    show "links (heap (c\<lparr>heap := h2\<rparr>))
           (head (c\<lparr>heap := h2\<rparr>) # map fst ((a, k, v) # xs @ ys) @ [tail (c\<lparr>heap := h2\<rparr>)])"
      using l2 by simp
    show "distinct (head (c\<lparr>heap := h2\<rparr>) # map fst ((a, k, v) # xs @ ys) @ [tail (c\<lparr>heap := h2\<rparr>)])"
      using D(2) by auto
    show "head (c\<lparr>heap := h2\<rparr>) < fresh (c\<lparr>heap := h2\<rparr>)"
      "tail (c\<lparr>heap := h2\<rparr>) < fresh (c\<lparr>heap := h2\<rparr>)"
      using D(3,4) by simp_all
    show "\<And>b. b \<in> set (map fst ((a, k, v) # xs @ ys)) \<Longrightarrow> b < fresh (c\<lparr>heap := h2\<rparr>)"
      using D(5) by auto
    show "\<And>b k' v'. (b, k', v') \<in> set ((a, k, v) # xs @ ys) \<Longrightarrow>
            nkey (heap (c\<lparr>heap := h2\<rparr>) b) = Some k' \<and> nvalue (heap (c\<lparr>heap := h2\<rparr>) b) = Some v'"
    proof -
      fix b k' v' assume "(b, k', v') \<in> set ((a, k, v) # xs @ ys)"
      then have "(b, k', v') \<in> set ?ns" by auto
      from D(6)[OF this] show "nkey (heap (c\<lparr>heap := h2\<rparr>) b) = Some k'
          \<and> nvalue (heap (c\<lparr>heap := h2\<rparr>) b) = Some v'"
        using k1 k2 by simp
    qed
    show "distinct (map (\<lambda>(a, k, v). k) ((a, k, v) # xs @ ys))"
      using D(7) by auto
    show "distinct (map fst (cache_dict (c\<lparr>heap := h2\<rparr>)))"
      using D(8) by simp
    show "set (cache_dict (c\<lparr>heap := h2\<rparr>)) = (\<lambda>(a, k, v). (k, a)) ` set ((a, k, v) # xs @ ys)"
      using D(9) by auto
  qed
  with g show ?thesis by auto
qed

lemma links_last:
  assumes "links h (xs @ [l, t])"
  shows "nprev (h t) = Some l"
proof -
  from assms have "links h (xs @ l # t # [])" by simp
  then have "links h (l # t # [])" by (simp only: links_append2)
  then show ?thesis by simp
qed

lemma evict_lru_nodes:
  assumes i: "lru_nodes c (ns @ [(l, lk, lv)])"
  shows "\<exists>c'. evict_lru c = Inr c' \<and> lru_nodes c' ns \<and> capacity c' = capacity c"
proof -
  let ?ns = "ns @ [(l, lk, lv)]"
  note D = lru_nodesD[OF i]
  have tp: "nprev (heap c (tail c)) = Some l"
    using D(1) links_last[of "heap c" "head c # map fst ns" l "tail c"] by simp
  from unlink_node[of "heap c" "head c" ns l lk lv "[]" "tail c"] D(1) D(2) obtain h1 where
    r: "remove_node l (heap c) = Inr h1"
    and l1: "links h1 (head c # map fst ns @ [tail c])"
    and k1: "\<forall>x. nkey (h1 x) = nkey (heap c x) \<and> nvalue (h1 x) = nvalue (heap c x)" by auto
  have kl: "nkey (h1 l) = Some lk" using D(6)[of l lk lv] k1 by simp
  have m: "map_of (cache_dict c) lk = Some l"
    using lru_nodes_lookup[OF i, of lk l] by auto
  define c' where "c' = c\<lparr>heap := h1, cache_dict := AList.delete lk (cache_dict c)\<rparr>"
  have e: "evict_lru c = Inr c'"
    using tp r kl m by (simp add: evict_lru_def c'_def)
  have notin: "\<And>b k' v'. (b, k', v') \<in> set ns \<Longrightarrow> k' \<noteq> lk"
    using D(7) by (auto simp: rev_image_eqI)
  have "lru_nodes c' ns"
  proof (rule lru_nodesI)
    show "links (heap c') (head c' # map fst ns @ [tail c'])" using l1 by (simp add: c'_def)
    show "distinct (head c' # map fst ns @ [tail c'])" using D(2) by (simp add: c'_def)
    show "head c' < fresh c'" "tail c' < fresh c'" using D(3,4) by (simp_all add: c'_def)
    show "\<And>b. b \<in> set (map fst ns) \<Longrightarrow> b < fresh c'" using D(5) by (simp add: c'_def)
    show "\<And>b k' v'. (b, k', v') \<in> set ns \<Longrightarrow>
            nkey (heap c' b) = Some k' \<and> nvalue (heap c' b) = Some v'"
    proof -
      fix b k' v' assume "(b, k', v') \<in> set ns"
      then have "(b, k', v') \<in> set ?ns" by simp
      from D(6)[OF this] k1 show "nkey (heap c' b) = Some k' \<and> nvalue (heap c' b) = Some v'"
        by (simp add: c'_def)
    qed
    show "distinct (map (\<lambda>(a, k, v). k) ns)" using D(7) by simp
    show "distinct (map fst (cache_dict c'))"
      using D(8) by (simp add: c'_def distinct_delete)
    show "set (cache_dict c') = (\<lambda>(a, k, v). (k, a)) ` set ns"
    proof -
      have "set (cache_dict c') = {p \<in> set (cache_dict c). fst p \<noteq> lk}"
        by (auto simp: c'_def AList.delete_eq)
      also have "\<dots> = (\<lambda>(a, k, v). (k, a)) ` set ns"
        unfolding D(9) by (auto simp: rev_image_eqI dest: notin)
      finally show ?thesis .
    qed
  qed
  with e show ?thesis by (auto simp: c'_def)
qed

lemma filter_key_id:
  "(\<And>b k' v'. (b, k', v') \<in> set zs \<Longrightarrow> k' \<noteq> k)
     \<Longrightarrow> filter (\<lambda>(a', k', v'). k' \<noteq> k) zs = zs"
  by (induction zs) auto

lemma lru_put_unlink:
  assumes i: "lru_nodes c ns"
  shows "\<exists>h1. (case map_of (cache_dict c) k of Some old \<Rightarrow> remove_node old (heap c)
                                               | None \<Rightarrow> Inr (heap c)) = Inr h1
           \<and> links h1 (head c # map fst (filter (\<lambda>(a', k', v'). k' \<noteq> k) ns) @ [tail c])
           \<and> (\<forall>x. nkey (h1 x) = nkey (heap c x) \<and> nvalue (h1 x) = nvalue (heap c x))"
proof (cases "map_of (cache_dict c) k")
  case None
  note D = lru_nodesD[OF i]
  have "\<And>b k' v'. (b, k', v') \<in> set ns \<Longrightarrow> k' \<noteq> k"
  proof
    fix b k' v' assume "(b, k', v') \<in> set ns" "k' = k"
    then have "map_of (cache_dict c) k = Some b" using lru_nodes_lookup[OF i, of k b] by auto
    with None show False by simp
  qed
  then have "filter (\<lambda>(a', k', v'). k' \<noteq> k) ns = ns" by (rule filter_key_id)
  with None D(1) show ?thesis by simp
next
  case (Some old)
  then obtain v0 where "(old, k, v0) \<in> set ns" using lru_nodes_lookup[OF i, of k old] by auto
  then obtain xs ys where ns: "ns = xs @ (old, k, v0) # ys" by (meson split_list)
  note D = lru_nodesD[OF i[unfolded ns]]
  have "\<And>b k' v'. (b, k', v') \<in> set (xs @ ys) \<Longrightarrow> k' \<noteq> k"
    using D(7) by (auto simp: rev_image_eqI)
  then have "filter (\<lambda>(a', k', v'). k' \<noteq> k) (xs @ ys) = xs @ ys" by (rule filter_key_id)
  then have f: "filter (\<lambda>(a', k', v'). k' \<noteq> k) ns = xs @ ys" by (simp add: ns)
  from unlink_node[OF D(1) D(2)] Some show ?thesis unfolding f by simp
qed

lemma lru_put_insert:
  assumes i: "lru_nodes c ns"
  shows "\<exists>h1 h3. (case map_of (cache_dict c) k of Some old \<Rightarrow> remove_node old (heap c)
                                               | None \<Rightarrow> Inr (heap c)) = Inr h1
           \<and> add_node (head c) (fresh c) (h1(fresh c := Node_init (Some k) (Some v))) = Inr h3
           \<and> lru_nodes (c\<lparr>heap := h3, fresh := Suc (fresh c),
                            cache_dict := AList.update k (fresh c) (cache_dict c)\<rparr>)
                ((fresh c, k, v) # filter (\<lambda>(a', k', v'). k' \<noteq> k) ns)"
proof -
  let ?ns1 = "filter (\<lambda>(a', k', v'). k' \<noteq> k) ns"
  let ?a = "fresh c"
  note D = lru_nodesD[OF i]
  from lru_put_unlink[OF i, of k] obtain h1 where
    u: "(case map_of (cache_dict c) k of Some old \<Rightarrow> remove_node old (heap c)
                                               | None \<Rightarrow> Inr (heap c)) = Inr h1"
    and l1: "links h1 (head c # map fst ?ns1 @ [tail c])"
    and k1: "\<forall>x. nkey (h1 x) = nkey (heap c x) \<and> nvalue (h1 x) = nvalue (heap c x)" by blast
  have sub: "set ?ns1 \<subseteq> set ns" by auto
  have d1: "distinct (head c # map fst ?ns1 @ [tail c])"
    using D(2) by (auto simp: distinct_map_filter)
  have a1: "?a \<notin> set (head c # map fst ?ns1 @ [tail c])"
    using D(3,4,5) by fastforce
  define h2 where "h2 = h1(?a := Node_init (Some k) (Some v))"
  have "links h2 (head c # map fst ?ns1 @ [tail c]) = links h1 (head c # map fst ?ns1 @ [tail c])"
  proof (rule links_frame)
    show "\<forall>x\<in>set (butlast (head c # map fst ?ns1 @ [tail c])). nnext (h2 x) = nnext (h1 x)"
    proof
      fix x assume "x \<in> set (butlast (head c # map fst ?ns1 @ [tail c]))"
      then have "x \<in> set (head c # map fst ?ns1 @ [tail c])" by (rule in_set_butlastD)
      with a1 have "x \<noteq> ?a" by blast
      then show "nnext (h2 x) = nnext (h1 x)" by (simp add: h2_def)
    qed
    show "\<forall>x\<in>set (tl (head c # map fst ?ns1 @ [tail c])). nprev (h2 x) = nprev (h1 x)"
    proof
      fix x assume "x \<in> set (tl (head c # map fst ?ns1 @ [tail c]))"
      then have "x \<in> set (head c # map fst ?ns1 @ [tail c])" by simp
      with a1 have "x \<noteq> ?a" by blast
      then show "nprev (h2 x) = nprev (h1 x)" by (simp add: h2_def)
    qed
  qed
  with l1 have l2: "links h2 (head c # map fst ?ns1 @ [tail c])" by simp
  from push_front[OF l2 d1 a1] obtain h3 where
    ad: "add_node (head c) ?a h2 = Inr h3"
    and l3: "links h3 (head c # ?a # map fst ?ns1 @ [tail c])"
    and k3: "\<forall>x. nkey (h3 x) = nkey (h2 x) \<and> nvalue (h3 x) = nvalue (h2 x)" by blast
  define c1 where "c1 = c\<lparr>heap := h3, fresh := Suc ?a,
                            cache_dict := AList.update k ?a (cache_dict c)\<rparr>"
  have "lru_nodes c1 ((?a, k, v) # ?ns1)"
  proof (rule lru_nodesI)
    show "links (heap c1) (head c1 # map fst ((?a, k, v) # ?ns1) @ [tail c1])"
      using l3 by (simp add: c1_def)
    show "distinct (head c1 # map fst ((?a, k, v) # ?ns1) @ [tail c1])"
      using d1 a1 by (simp add: c1_def)
    show "head c1 < fresh c1" "tail c1 < fresh c1" using D(3,4) by (simp_all add: c1_def)
    show "\<And>b. b \<in> set (map fst ((?a, k, v) # ?ns1)) \<Longrightarrow> b < fresh c1"
    proof -
      fix b assume "b \<in> set (map fst ((?a, k, v) # ?ns1))"
      then have "b = ?a \<or> b \<in> set (map fst ns)" by auto
      then show "b < fresh c1" using D(5) by (auto simp: c1_def less_Suc_eq)
    qed
    show "\<And>b k' v'. (b, k', v') \<in> set ((?a, k, v) # ?ns1) \<Longrightarrow>
            nkey (heap c1 b) = Some k' \<and> nvalue (heap c1 b) = Some v'"
    proof -
      fix b k' v' assume "(b, k', v') \<in> set ((?a, k, v) # ?ns1)"
      then consider "b = ?a" "k' = k" "v' = v" | "(b, k', v') \<in> set ns" by auto
      then show "nkey (heap c1 b) = Some k' \<and> nvalue (heap c1 b) = Some v'"
      proof cases
        case 1 then show ?thesis using k3 by (simp add: c1_def h2_def Node_init_def)
      next
        case 2
        then have "b \<in> set (map fst ns)" by force
        then have "b \<noteq> ?a" using D(5) by fastforce
        with D(6)[OF 2] k1 k3 show ?thesis by (simp add: c1_def h2_def)
      qed
    qed
    show "distinct (map (\<lambda>(a, k, v). k) ((?a, k, v) # ?ns1))"
      using D(7) by (auto simp: distinct_map_filter)
    show "distinct (map fst (cache_dict c1))"
      using D(8) by (simp add: c1_def distinct_update)
    show "set (cache_dict c1) = (\<lambda>(a, k, v). (k, a)) ` set ((?a, k, v) # ?ns1)"
    proof -
      have "set (cache_dict c1) = insert (k, ?a) {p \<in> set (cache_dict c). fst p \<noteq> k}"
        using D(8) by (simp add: c1_def update_set)
      also have "{p \<in> set (cache_dict c). fst p \<noteq> k} = (\<lambda>(a, k, v). (k, a)) ` set ?ns1"
        unfolding D(9) by force
      finally show ?thesis by simp
    qed
  qed
  with u ad show ?thesis unfolding h2_def c1_def by blast
qed

lemma map_snd_filter_key:
  "map snd (filter (\<lambda>(a', k', v'). k' \<noteq> k) ns) = AList.delete k (map snd ns)"
  by (induction ns) (auto simp: AList.delete_eq)

lemma lru_put_nodes:
  assumes i: "lru_nodes c ns"
  shows "\<exists>c' ns'. lru_put k v c = Inr c' \<and> lru_nodes c' ns'
           \<and> map snd ns' = recency_put (capacity c) k v (map snd ns)
           \<and> capacity c' = capacity c"
proof -
  let ?l = "(fresh c, k, v) # filter (\<lambda>(a', k', v'). k' \<noteq> k) ns"
  from lru_put_insert[OF i, of k v] obtain h1 h3 where
    u: "(case map_of (cache_dict c) k of Some old \<Rightarrow> remove_node old (heap c)
                                               | None \<Rightarrow> Inr (heap c)) = Inr h1"
    and ad: "add_node (head c) (fresh c) (h1(fresh c := Node_init (Some k) (Some v))) = Inr h3"
    and n1: "lru_nodes (c\<lparr>heap := h3, fresh := Suc (fresh c),
                            cache_dict := AList.update k (fresh c) (cache_dict c)\<rparr>) ?l"
    by blast
  define c1 where "c1 = c\<lparr>heap := h3, fresh := Suc (fresh c),
                            cache_dict := AList.update k (fresh c) (cache_dict c)\<rparr>"
  have p: "lru_put k v c =
            (if int (length (cache_dict c1)) > capacity c1 then evict_lru c1 else Inr c1)"
    using u ad by (simp add: lru_put_def Let_def c1_def)
  have len: "length (cache_dict c1) = length ?l"
    using lru_nodes_length[OF n1] by (simp add: c1_def)
  have cap: "capacity c1 = capacity c" by (simp add: c1_def)
  have ml: "map snd ?l = (k, v) # AList.delete k (map snd ns)"
    by (simp add: map_snd_filter_key)
  have ml2: "length ((k, v) # AList.delete k (map snd ns)) = length ?l"
    by (metis ml length_map)
  have rp: "recency_put (capacity c) k v (map snd ns) =
             (if int (length ?l) > capacity c then butlast (map snd ?l) else map snd ?l)"
    unfolding recency_put_def Let_def ml2 ml ..
  show ?thesis
  proof (cases "int (length ?l) > capacity c")
    case False
    then have "lru_put k v c = Inr c1" using p len cap by simp
    moreover have "map snd ?l = recency_put (capacity c) k v (map snd ns)"
      unfolding rp using False by (simp only: if_False)
    ultimately show ?thesis using n1 cap unfolding c1_def[symmetric]
      by (intro exI[of _ c1] exI[of _ ?l]) simp
  next
    case True
    obtain b lk lv where bl: "?l = butlast ?l @ [(b, lk, lv)]"
      by (metis append_butlast_last_id list.distinct(1) prod_cases3)
    from n1 have "lru_nodes c1 (butlast ?l @ [(b, lk, lv)])"
      unfolding c1_def[symmetric] using bl by simp
    from evict_lru_nodes[OF this] obtain c' where
      e: "evict_lru c1 = Inr c'" and n': "lru_nodes c' (butlast ?l)"
      and c': "capacity c' = capacity c1" by blast
    have "lru_put k v c = Inr c'" using p len cap True e by simp
    moreover have "map snd (butlast ?l) = recency_put (capacity c) k v (map snd ns)"
      unfolding rp using True by (simp only: if_True map_butlast)
    ultimately show ?thesis using n' c' cap
      by (intro exI[of _ c'] exI[of _ "butlast ?l"]) simp
  qed
qed

lemma lru_get_miss: "map_of (cache_dict c) k = None \<Longrightarrow> lru_get k c = Inr (None, c)"
  by (simp add: lru_get_def)

lemma lru_nodes_init: "lru_nodes (LRUCache_init cap) []"
  by (rule lru_nodesI) (simp_all add: LRUCache_init_def Let_def Node_init_def)

lemma lru_rep_init: "lru_rep (LRUCache_init cap) []"
  unfolding lru_rep_def using lru_nodes_init by force

lemma lru_rep_keys:
  assumes "lru_rep c kvs"
  shows "fst ` set (cache_dict c) = fst ` set kvs"
    and "distinct (map fst kvs)"
    and "length (cache_dict c) = length kvs"
proof -
  from assms obtain ns where i: "lru_nodes c ns" and m: "map snd ns = kvs"
    unfolding lru_rep_def by blast
  note D = lru_nodesD[OF i]
  have "fst ` set (cache_dict c) = (\<lambda>(a, k, v). k) ` set ns"
    unfolding D(9) by force
  also have "\<dots> = fst ` set kvs" unfolding m[symmetric] by force
  finally show "fst ` set (cache_dict c) = fst ` set kvs" .
  have "map fst kvs = map (\<lambda>(a, k, v). k) ns"
    unfolding m[symmetric] by (simp add: case_prod_beta)
  with D(7) show "distinct (map fst kvs)" by simp
  from lru_nodes_length[OF i] m show "length (cache_dict c) = length kvs"
    by (metis length_map)
qed

lemma lru_put_rep:
  assumes "lru_rep c kvs"
  shows "\<exists>c'. lru_put k v c = Inr c' \<and> lru_rep c' (recency_put (capacity c) k v kvs)
           \<and> capacity c' = capacity c"
proof -
  from assms obtain ns where i: "lru_nodes c ns" and m: "map snd ns = kvs"
    unfolding lru_rep_def by blast
  from lru_put_nodes[OF i, of k v] obtain c' ns' where
    "lru_put k v c = Inr c'" "lru_nodes c' ns'"
    "map snd ns' = recency_put (capacity c) k v (map snd ns)" "capacity c' = capacity c"
    by blast
  then show ?thesis unfolding lru_rep_def m by blast
qed

lemma lru_get_rep:
  assumes r: "lru_rep c kvs"
  shows "\<exists>c'. lru_get k c = Inr (map_of kvs k, c') \<and> lru_rep c' (recency_get k kvs)
           \<and> capacity c' = capacity c \<and> cache_dict c' = cache_dict c"
proof (cases "map_of kvs k")
  case None
  then have "k \<notin> fst ` set kvs" by (simp add: map_of_eq_None_iff)
  then have "k \<notin> fst ` set (cache_dict c)" using lru_rep_keys(1)[OF r] by simp
  then have "map_of (cache_dict c) k = None" by (simp add: map_of_eq_None_iff)
  from lru_get_miss[OF this] None r show ?thesis by (simp add: recency_get_def)
next
  case (Some v)
  from r obtain ns where i: "lru_nodes c ns" and m: "map snd ns = kvs"
    unfolding lru_rep_def by blast
  from Some have "(k, v) \<in> set kvs" by (rule map_of_SomeD)
  then obtain a where "(a, k, v) \<in> set ns" unfolding m[symmetric] by force
  then obtain xs ys where ns: "ns = xs @ (a, k, v) # ys" by (meson split_list)
  note D = lru_nodesD[OF i[unfolded ns]]
  from lru_get_hit[OF i[unfolded ns]] obtain c' where
    g: "lru_get k c = Inr (Some v, c')" and n': "lru_nodes c' ((a, k, v) # xs @ ys)"
    and c': "capacity c' = capacity c" "cache_dict c' = cache_dict c" by blast
  have "\<And>b k' v'. (b, k', v') \<in> set (xs @ ys) \<Longrightarrow> k' \<noteq> k"
    using D(7) by (auto simp: rev_image_eqI)
  then have "filter (\<lambda>(a', k', v'). k' \<noteq> k) (xs @ ys) = xs @ ys" by (rule filter_key_id)
  then have "filter (\<lambda>(a', k', v'). k' \<noteq> k) ns = xs @ ys" by (simp add: ns)
  then have "AList.delete k kvs = map snd (xs @ ys)"
    unfolding m[symmetric] map_snd_filter_key[symmetric] by simp
  then have "map snd ((a, k, v) # xs @ ys) = recency_get k kvs"
    using Some by (simp add: recency_get_def)
  with n' have "lru_rep c' (recency_get k kvs)" unfolding lru_rep_def by blast
  with g c' Some show ?thesis by simp
qed

section \<open>LRUCache.get on a key that is not cached\<close>

text \<open>
  C9. For every cache state and every key that is not in \<open>self.cache\<close>, \<open>get\<close> returns
  \<open>None\<close> and the cache after the call is the cache before it: dictionary, nodes,
  links and recency order.
\<close>

theorem lru_get_absent:
  "k \<notin> fst ` set (cache_dict c) \<Longrightarrow> lru_get k c = Inr (None, c)"
proof -
  assume "k \<notin> fst ` set (cache_dict c)"
  then have "map_of (cache_dict c) k = None" by (simp add: map_of_eq_None_iff)
  then show ?thesis by (simp add: lru_get_def)
qed

theorem lru_get_absent_witness:
  "(let c = projr (lru_put ''a'' ''x'' (LRUCache_init 2 :: (string, string) LRUCache))
    in cache_dict c = [(''a'', 2)] \<and> lru_get ''b'' c = Inr (None, c))"
proof -
  let ?c = "projr (lru_put ''a'' ''x'' (LRUCache_init 2 :: (string, string) LRUCache))"
  have d: "cache_dict ?c = [(''a'', 2)]" by code_simp
  then have "''b'' \<notin> fst ` set (cache_dict ?c)" by simp
  from lru_get_absent[OF this] d show ?thesis by (simp add: Let_def)
qed

end
